theory Spec2Isabelle
  imports Complex_Main "HOL-Library.Multiset"
begin

section \<open>Numbers, errors and records\<close>

text \<open>
  The library computes with \<open>double\<close> and \<open>std::complex<double>\<close>. The development
  reads a finite double as the real number it denotes, and comparisons, negation,
  conjugation and the selection of a real or imaginary part as the exact operations they
  are. Sums, products and quotients are taken exactly, a division by zero ends the run
  with \<open>NotFinite\<close>, and the distance test of \<open>cplxpair\<close> is a parameter of the model,
  so that its rounding is left open. Sizes of vectors are natural numbers. Where the
  source subtracts two \<open>size_t\<close> values the wrap-around modulo \<open>2 ^ 64\<close> is written
  out, in the padding loops of \<open>zpk2sos\<close> and in the degree of \<open>bilinear_transform\<close>,
  where the conversion to \<open>int\<close> is written out as well; the section count of
  \<open>zpk2sos\<close> is half a size and is taken to fit an \<open>int\<close>. An \<open>int\<close> counter that
  would leave the 32-bit range ends the run with \<open>SignedOverflow\<close>. The \<open>assert\<close>
  statements of the source are compiled in; a failed one ends the run with
  \<open>AssertionFailed\<close>.
\<close>

datatype error =
    InvalidArgument   \<comment> \<open>\<open>std::invalid_argument\<close>, thrown by \<open>cplxpair\<close>\<close>
  | LogicError        \<comment> \<open>\<open>std::logic_error\<close>, thrown by \<open>zpk2tf\<close>\<close>
  | OutOfRange        \<comment> \<open>\<open>std::out_of_range\<close>, thrown by \<open>vector::at\<close>\<close>
  | AssertionFailed   \<comment> \<open>a failed \<open>assert\<close>: the process aborts\<close>
  | SignedOverflow    \<comment> \<open>an \<open>int\<close> counter incremented beyond \<open>INT_MAX\<close>\<close>
  | InvalidIterator   \<comment> \<open>\<open>front()\<close> of an empty vector, or the end iterator dereferenced\<close>
  | NoCandidate       \<comment> \<open>\<open>pop_nearest_real_complex\<close> finds no element of the requested kind\<close>
  | NotFinite         \<comment> \<open>a division by zero: the source goes on with \<open>inf\<close> or \<open>nan\<close>\<close>

record zpk =
  zeros :: "complex list"
  poles :: "complex list"
  gain :: real

record biquad =
  m_b0 :: real
  m_b1 :: real
  m_b2 :: real
  m_a1 :: real
  m_a2 :: real
  m_xn1 :: real
  m_xn2 :: real
  m_yn1 :: real
  m_yn2 :: real

text \<open>
  Modelled from the spec: the constructor \<open>biquad(b0, b1, b2, a1, a2)\<close>, declared in
  \<open>biquad.h\<close> and defined outside the sources at hand. The spec gives a section its five
  coefficients and a delay state initialised to zero.
\<close>

definition new_biquad :: "real \<Rightarrow> real \<Rightarrow> real \<Rightarrow> real \<Rightarrow> real \<Rightarrow> biquad" where
  "new_biquad b0 b1 b2 a1 a2 =
     \<lparr>m_b0 = b0, m_b1 = b1, m_b2 = b2, m_a1 = a1, m_a2 = a2,
      m_xn1 = 0, m_xn2 = 0, m_yn1 = 0, m_yn2 = 0\<rparr>"

definition INT_MAX :: int where
  "INT_MAX = 2147483647"

definition epsilon :: real where
  \<comment> \<open>\<open>std::numeric_limits<double>::epsilon()\<close>\<close>
  "epsilon = 1 / 2 ^ 52"

definition is_real :: "complex \<Rightarrow> bool" where
  "is_real z = (\<bar>Im z\<bar> < 100 * epsilon)"

definition is_real_list :: "complex list \<Rightarrow> bool list" where
  "is_real_list zv = map is_real zv"

definition vector_at :: "'a list \<Rightarrow> nat \<Rightarrow> error + 'a" where
  \<comment> \<open>\<open>std::vector::at\<close>\<close>
  "vector_at xs i = (if i < length xs then Inr (xs ! i) else Inl OutOfRange)"

definition erase :: "'a list \<Rightarrow> nat \<Rightarrow> 'a list" where
  \<comment> \<open>\<open>v.erase(v.begin() + i)\<close> for an index inside the vector\<close>
  "erase xs i = take i xs @ drop (Suc i) xs"

section \<open>Library algorithms used by the source\<close>

text \<open>
  \<open>std::sort\<close> with a comparator. The order it leaves between elements that the
  comparator does not separate is unspecified; the model keeps them in their input order.
\<close>

fun sort_insert :: "('a \<Rightarrow> 'a \<Rightarrow> bool) \<Rightarrow> 'a \<Rightarrow> 'a list \<Rightarrow> 'a list" where
  "sort_insert lt x [] = [x]"
| "sort_insert lt x (y # ys) = (if lt y x then y # sort_insert lt x ys else x # y # ys)"

definition std_sort :: "('a \<Rightarrow> 'a \<Rightarrow> bool) \<Rightarrow> 'a list \<Rightarrow> 'a list" where
  "std_sort lt xs = foldr (sort_insert lt) xs []"

text \<open>
  \<open>std::min_element\<close>, as the index of the first smallest element; on an empty range it
  returns the end iterator, whose index is 0.
\<close>

fun min_scan :: "('a \<Rightarrow> 'a \<Rightarrow> bool) \<Rightarrow> 'a list \<Rightarrow> nat \<Rightarrow> 'a \<Rightarrow> nat \<Rightarrow> nat" where
  "min_scan lt [] i smallest si = si"
| "min_scan lt (x # xs) i smallest si =
     (if lt x smallest then min_scan lt xs (Suc i) x i else min_scan lt xs (Suc i) smallest si)"

definition min_element :: "('a \<Rightarrow> 'a \<Rightarrow> bool) \<Rightarrow> 'a list \<Rightarrow> nat" where
  "min_element lt xs = (case xs of [] \<Rightarrow> 0 | x # rest \<Rightarrow> min_scan lt rest 1 x 0)"

text \<open>\<open>std::find_if\<close>, as the index of the first element satisfying the predicate.\<close>

fun find_if :: "('a \<Rightarrow> bool) \<Rightarrow> 'a list \<Rightarrow> nat option" where
  "find_if P [] = None"
| "find_if P (x # xs) =
     (if P x then Some 0 else (case find_if P xs of None \<Rightarrow> None | Some k \<Rightarrow> Some (Suc k)))"

section \<open>bilinear_transform\<close>




section \<open>cplxpair\<close>

definition complex_comparator :: "complex \<Rightarrow> complex \<Rightarrow> bool" where
  "complex_comparator a b = (if Re a = Re b then Im a < Im b else Re a < Re b)"

definition tol :: real where
  "tol = 100 * epsilon"

definition classify :: "complex \<Rightarrow> complex list \<times> complex list \<times> complex list
                          \<Rightarrow> complex list \<times> complex list \<times> complex list" where
  \<comment> \<open>the body of the partition loop: \<open>(z_r, z_ip, z_in)\<close>\<close>
  "classify number acc =
     (case acc of (z_r, z_ip, z_in) \<Rightarrow>
        if \<bar>Im number\<bar> < tol then (z_r @ [Complex (Re number) 0], z_ip, z_in)
        else if Im number > 0 then (z_r, z_ip @ [number], z_in)
        else (z_r, z_ip, z_in @ [number]))"

text \<open>
  The partner test \<open>std::abs(z_ip.at(i) - std::conj(z_in.at(j))) < tol\<close> is the one
  place where \<open>cplxpair\<close> computes with rounding; every other step compares or copies.
  \<open>cplxpair_with\<close> takes the computed distance as a function \<open>dst\<close>, so that what
  is proved of it holds for the distance as the doubles give it as well as for the exact
  one. \<open>cplxpair\<close> is \<open>cplxpair_with\<close> at the exact distance.
\<close>

fun has_conj :: "(complex \<Rightarrow> complex \<Rightarrow> real) \<Rightarrow> complex \<Rightarrow> complex list \<Rightarrow> bool" where
  \<comment> \<open>the inner search loop over \<open>z_in\<close>, left at the first match\<close>
  "has_conj dst a [] = False"
| "has_conj dst a (b # bs) = (if dst a b < tol then True else has_conj dst a bs)"

fun check_conj ::
    "(complex \<Rightarrow> complex \<Rightarrow> real) \<Rightarrow> complex list \<Rightarrow> complex list \<Rightarrow> error + unit" where
  \<comment> \<open>the outer loop over \<open>z_ip\<close>\<close>
  "check_conj dst [] z_in = Inr ()"
| "check_conj dst (a # as) z_in =
     (if has_conj dst a z_in then check_conj dst as z_in else Inl InvalidArgument)"

definition cplxpair_with ::
    "(complex \<Rightarrow> complex \<Rightarrow> real) \<Rightarrow> complex list \<Rightarrow> error + (complex list \<times> complex list)" where
  "cplxpair_with dst z =
     (case fold classify (std_sort complex_comparator z) ([], [], []) of
        (z_r, z_ip, z_in) \<Rightarrow>
          if length z_ip \<noteq> length z_in then Inl InvalidArgument
          else (case check_conj dst z_ip z_in of
                  Inl e \<Rightarrow> Inl e
                | Inr u \<Rightarrow> Inr (z_r, z_ip)))"

definition conj_distance :: "complex \<Rightarrow> complex \<Rightarrow> real" where
  "conj_distance a b = cmod (a - cnj b)"

definition cplxpair :: "complex list \<Rightarrow> error + (complex list \<times> complex list)" where
  "cplxpair z = cplxpair_with conj_distance z"

section \<open>zpk2tf\<close>

definition zpk2tf :: "zpk \<Rightarrow> error + biquad" where
  "zpk2tf zpk_sos =
     (case vector_at (poles zpk_sos) 0 of Inl e \<Rightarrow> Inl e | Inr p0 \<Rightarrow>
     (case vector_at (poles zpk_sos) 1 of Inl e \<Rightarrow> Inl e | Inr p1 \<Rightarrow>
     (let a = [Complex 1 0, - p0 - p1, p0 * p1] in
      if \<not> list_all is_real a then Inl LogicError
      else
       (case vector_at (zeros zpk_sos) 0 of Inl e \<Rightarrow> Inl e | Inr z0 \<Rightarrow>
       (case vector_at (zeros zpk_sos) 1 of Inl e \<Rightarrow> Inl e | Inr z1 \<Rightarrow>
       (let b = [of_real (gain zpk_sos) * Complex 1 0,
                 of_real (gain zpk_sos) * (- z0 - z1),
                 of_real (gain zpk_sos) * z0 * z1] in
        if \<not> list_all is_real b then Inl LogicError
        else Inr (new_biquad (Re (b ! 0)) (Re (b ! 1)) (Re (b ! 2))
                    (Re (a ! 1)) (Re (a ! 2)))))))))"

section \<open>pop_nearest_real_complex\<close>

text \<open>
  Modelled from the spec: \<open>utils::pop_nearest_real_complex(fro, to, real)\<close>, declared in
  \<open>utils.h\<close> and defined outside the sources at hand. Its declaration says that it returns
  the real (or, with \<open>real = false\<close>, the complex) element of \<open>fro\<close> closest to \<open>to\<close> and
  removes it from \<open>fro\<close>; the flag \<open>real\<close> is \<open>want_real\<close> here; the spec calls it nearest-element extraction. The model takes
  the first nearest element of the requested kind, leaves the others in their order, and
  stops with \<open>NoCandidate\<close> where \<open>fro\<close> holds no element of that kind, a case on which
  the declaration and the spec are silent.
\<close>

definition pop_nearest_real_complex ::
    "complex list \<Rightarrow> complex \<Rightarrow> bool \<Rightarrow> error + (complex \<times> complex list)" where
  "pop_nearest_real_complex fro to want_real =
     (case filter (\<lambda>i. is_real (fro ! i) = want_real) [0..<length fro] of
        [] \<Rightarrow> Inl NoCandidate
      | k # ks \<Rightarrow>
          let j = (k # ks) ! min_element (\<lambda>i1 i2. cmod (fro ! i1 - to) < cmod (fro ! i2 - to)) (k # ks)
          in Inr (fro ! j, erase fro j))"

section \<open>zpk2sos\<close>

text \<open>
  The two padding loops have the same shape,
  \<open>for (int i = 0; i < other.size() - grown.size(); i++) grown.push_back(0)\<close>:
  the bound is recomputed before every iteration, in \<open>size_t\<close>, and the counter is
  converted to \<open>size_t\<close> for the comparison.
\<close>

function pad_loop :: "nat \<Rightarrow> int \<Rightarrow> complex list \<Rightarrow> error + complex list" where
  "pad_loop other_size i grown =
     (if i mod 2 ^ 64 < (int other_size - int (length grown)) mod 2 ^ 64
      then (if INT_MAX \<le> i then Inl SignedOverflow
            else pad_loop other_size (i + 1) (grown @ [0]))
      else Inr grown)"
  by pat_completeness auto
termination
  by (relation "measure (\<lambda>(other_size, i, grown). nat (INT_MAX - i))") auto

declare pad_loop.simps [simp del]

definition zpk2sos_pad :: "zpk \<Rightarrow> error + zpk" where
  \<comment> \<open>the preprocessing up to the assertion that the counts agree\<close>
  "zpk2sos_pad z =
     (case pad_loop (length (zeros z)) 0 (poles z) of Inl e \<Rightarrow> Inl e | Inr ps \<Rightarrow>
     (case pad_loop (length ps) 0 (zeros z) of Inl e \<Rightarrow> Inl e | Inr zs \<Rightarrow>
       if length ps = length zs then Inr (z\<lparr>zeros := zs, poles := ps\<rparr>)
       else Inl AssertionFailed))"

definition unit_circle_closer :: "complex \<Rightarrow> complex \<Rightarrow> bool" where
  "unit_circle_closer p1 p2 = (\<bar>1 - cmod p1\<bar> < \<bar>1 - cmod p2\<bar>)"

definition count_real :: "complex list \<Rightarrow> nat" where
  \<comment> \<open>\<open>std::accumulate\<close> over \<open>utils::is_real(poles)\<close>\<close>
  "count_real ps = length (filter (\<lambda>b. b) (is_real_list ps))"

definition pair_first_zero ::
    "complex \<Rightarrow> complex list \<Rightarrow> complex list \<Rightarrow> error + (complex \<times> complex list)" where
  \<comment> \<open>the choice of \<open>z1\<close> for a section that is not first-order\<close>
  "pair_first_zero p1 ps zs =
     (if \<not> is_real p1 \<and> count_real ps = 1
      then (case pop_nearest_real_complex zs p1 False of
              Inl e \<Rightarrow> Inl e
            | Inr (z1, zs') \<Rightarrow> if is_real z1 then Inl AssertionFailed else Inr (z1, zs'))
      else (let z1_idx = min_element (\<lambda>zi zj. cmod (p1 - zi) < cmod (p1 - zj)) zs
            in case vector_at zs z1_idx of
                 Inl e \<Rightarrow> Inl e
               | Inr z1 \<Rightarrow> Inr (z1, erase zs z1_idx)))"

definition pair_section ::
    "complex list \<Rightarrow> complex list
       \<Rightarrow> error + ((complex \<times> complex) \<times> (complex \<times> complex) \<times> complex list \<times> complex list)" where
  \<comment> \<open>one iteration of the pairing loop: \<open>((p1, p2), (z1, z2), poles, zeros)\<close>\<close>
  "pair_section ps0 zs0 =
     (case ps0 of
        [] \<Rightarrow> Inl InvalidIterator
      | p1 # ps \<Rightarrow>
          if is_real p1 \<and> count_real ps = 0
          then (case pop_nearest_real_complex zs0 p1 True of
                  Inl e \<Rightarrow> Inl e
                | Inr (z1, zs) \<Rightarrow> Inr ((p1, 0), (z1, 0), ps, zs))
          else
            (case pair_first_zero p1 ps zs0 of
               Inl e \<Rightarrow> Inl e
             | Inr (z1, zs) \<Rightarrow>
                 if \<not> is_real p1
                 then (if \<not> is_real z1
                       then Inr ((p1, cnj p1), (z1, cnj z1), ps, zs)
                       else (case pop_nearest_real_complex zs p1 True of
                               Inl e \<Rightarrow> Inl e
                             | Inr (z2, zs') \<Rightarrow>
                                 if is_real z2 then Inr ((p1, cnj p1), (z1, z2), ps, zs')
                                 else Inl AssertionFailed))
                 else (if \<not> is_real z1
                       then (case pop_nearest_real_complex ps z1 True of
                               Inl e \<Rightarrow> Inl e
                             | Inr (p2, ps') \<Rightarrow>
                                 if is_real p2 then Inr ((p1, p2), (z1, cnj z1), ps', zs)
                                 else Inl AssertionFailed)
                       else (case find_if is_real ps of
                               None \<Rightarrow> Inl InvalidIterator
                             | Some k \<Rightarrow>
                                 (case pop_nearest_real_complex zs (ps ! k) True of
                                    Inl e \<Rightarrow> Inl e
                                  | Inr (z2, zs') \<Rightarrow>
                                      if is_real z2
                                      then Inr ((p1, ps ! k), (z1, z2), erase ps k, zs')
                                      else Inl AssertionFailed)))))"

fun pairing_loop ::
    "nat \<Rightarrow> complex list \<Rightarrow> complex list \<Rightarrow> complex list list \<Rightarrow> complex list list
       \<Rightarrow> error + (complex list \<times> complex list \<times> complex list list \<times> complex list list)" where
  \<comment> \<open>the first argument counts the iterations still to run\<close>
  "pairing_loop 0 ps zs poles_sos zeros_sos = Inr (ps, zs, poles_sos, zeros_sos)"
| "pairing_loop (Suc n) ps zs poles_sos zeros_sos =
     (case pair_section ps zs of
        Inl e \<Rightarrow> Inl e
      | Inr ((p1, p2), (z1, z2), ps', zs') \<Rightarrow>
          pairing_loop n ps' zs' (poles_sos @ [[p1, p2]]) (zeros_sos @ [[z1, z2]]))"

fun emit_sections ::
    "real \<Rightarrow> int \<Rightarrow> complex list list \<Rightarrow> complex list list \<Rightarrow> nat \<Rightarrow> error + biquad list" where
  \<comment> \<open>the construction loop; the last argument is \<open>s + 1\<close>, so 0 is the exit at \<open>s = -1\<close>\<close>
  "emit_sections k n_sections zeros_sos poles_sos 0 = Inr []"
| "emit_sections k n_sections zeros_sos poles_sos (Suc s) =
     (case vector_at zeros_sos s of Inl e \<Rightarrow> Inl e | Inr zs \<Rightarrow>
     (case vector_at poles_sos s of Inl e \<Rightarrow> Inl e | Inr ps \<Rightarrow>
     (case zpk2tf \<lparr>zeros = zs, poles = ps,
                   gain = (if int s = n_sections - 1 then k else 1)\<rparr> of
        Inl e \<Rightarrow> Inl e
      | Inr b \<Rightarrow>
          (case emit_sections k n_sections zeros_sos poles_sos s of
             Inl e \<Rightarrow> Inl e
           | Inr sos \<Rightarrow> Inr (b # sos)))))"

definition zpk2sos_finish ::
    "real \<Rightarrow> int \<Rightarrow> complex list \<times> complex list \<times> complex list list \<times> complex list list
       \<Rightarrow> error + biquad list" where
  \<comment> \<open>what follows the pairing loop: the assertion on the leftovers, then the construction\<close>
  "zpk2sos_finish k n_sections st =
     (case st of (ps, zs, poles_sos, zeros_sos) \<Rightarrow>
        if length ps = 0 \<and> length zs = 0
        then emit_sections k n_sections zeros_sos poles_sos (nat n_sections)
        else Inl AssertionFailed)"

definition zpk2sos :: "zpk \<Rightarrow> error + biquad list" where
  "zpk2sos z =
     (case zpk2sos_pad z of Inl e \<Rightarrow> Inl e | Inr z1 \<Rightarrow>
     (let n_sections = int ((length (zeros z1) + 1) div 2);
          z2 = (if length (zeros z1) mod 2 = 1
                then z1\<lparr>zeros := zeros z1 @ [0], poles := poles z1 @ [0]\<rparr> else z1)
      in (case cplxpair (poles z2) of Inl e \<Rightarrow> Inl e | Inr (poles_r, poles_i) \<Rightarrow>
         (case cplxpair (zeros z2) of Inl e \<Rightarrow> Inl e | Inr (zeros_r, zeros_i) \<Rightarrow>
         (case pairing_loop (nat n_sections)
                 (std_sort unit_circle_closer (poles_r @ poles_i)) (zeros_r @ zeros_i) [] [] of
            Inl e \<Rightarrow> Inl e
          | Inr st \<Rightarrow> zpk2sos_finish (gain z2) n_sections st)))))"

text \<open>
  The recombination of the spec's round-trip property for \<open>cplxpair\<close>: the reals, the
  representatives with positive imaginary part, and the conjugates of the representatives.
\<close>

definition recombine :: "complex list \<times> complex list \<Rightarrow> complex list" where
  "recombine out = (case out of (z_r, z_ip) \<Rightarrow> z_r @ z_ip @ map cnj z_ip)"



definition within_tol :: "complex \<Rightarrow> complex \<Rightarrow> bool" where
  "within_tol a b = (cmod (a - b) < tol)"

text \<open>
  Notions for the pairing loop. After \<open>cplxpair\<close> a root is either exactly real or not
  real within tolerance; the weight of a list counts a real root once and a complex
  representative, which stands for a conjugate pair, twice. A section is well formed when
  it holds two exactly real roots or a complex root and its conjugate.
\<close>

definition real_count :: "complex list \<Rightarrow> nat" where
  "real_count xs = length (filter is_real xs)"

definition exact_root :: "complex \<Rightarrow> bool" where
  "exact_root z = (if is_real z then Im z = 0 else True)"

definition root_weight :: "complex list \<Rightarrow> nat" where
  "root_weight xs = real_count xs + 2 * length (filter (\<lambda>z. \<not> is_real z) xs)"

definition pair_ok :: "complex \<Rightarrow> complex \<Rightarrow> bool" where
  "pair_ok a b = (if is_real a then Im a = 0 \<and> Im b = 0 else b = cnj a)"

definition section_ok :: "complex list \<Rightarrow> bool" where
  "section_ok s = (case s of [a, b] \<Rightarrow> pair_ok a b | _ \<Rightarrow> False)"

section \<open>Evaluation of concrete runs\<close>

lemma cmod_Complex_0: "cmod (Complex 0 b) = \<bar>b\<bar>"
  by (simp add: cmod_def)

lemma cmod_Complex_re: "cmod (Complex a 0) = \<bar>a\<bar>"
  by (simp add: cmod_def)

lemmas complex_eval =
  complex_cnj complex_diff complex_minus complex_add complex_mult cmod_Complex_0 cmod_Complex_re

lemmas cplxpair_eval =
  cplxpair_def cplxpair_with_def conj_distance_def std_sort_def complex_comparator_def
  classify_def tol_def epsilon_def complex_eval

lemma tol_pos: "0 < tol"
  by (simp add: tol_def epsilon_def)

section \<open>cplxpair: when it fails and what it returns\<close>

lemma set_sort_insert: "set (sort_insert lt x ys) = insert x (set ys)"
  by (induction ys) auto

lemma set_std_sort: "set (std_sort lt xs) = set xs"
  by (induction xs) (simp_all add: std_sort_def set_sort_insert)

lemma count_sort_insert: "length (filter P (sort_insert lt x ys)) = length (filter P (x # ys))"
  by (induction ys) auto

lemma count_std_sort: "length (filter P (std_sort lt xs)) = length (filter P xs)"
  by (induction xs) (simp_all add: std_sort_def count_sort_insert)

lemma classify_step:
  "classify x (r, p, n) =
     (r @ map (\<lambda>z. Complex (Re z) 0) (filter (\<lambda>z. \<bar>Im z\<bar> < tol) [x]),
      p @ filter (\<lambda>z. tol \<le> Im z) [x],
      n @ filter (\<lambda>z. Im z \<le> - tol) [x])"
  using tol_pos by (auto simp: classify_def)

lemma fold_classify:
  "fold classify xs (r, p, n) =
     (r @ map (\<lambda>z. Complex (Re z) 0) (filter (\<lambda>z. \<bar>Im z\<bar> < tol) xs),
      p @ filter (\<lambda>z. tol \<le> Im z) xs,
      n @ filter (\<lambda>z. Im z \<le> - tol) xs)"
proof (induction xs arbitrary: r p n)
  case Nil
  show ?case by simp
next
  case (Cons x xs)
  have "fold classify (x # xs) (r, p, n) = fold classify xs (classify x (r, p, n))"
    by simp
  also have "\<dots> = (r @ map (\<lambda>z. Complex (Re z) 0) (filter (\<lambda>z. \<bar>Im z\<bar> < tol) (x # xs)),
      p @ filter (\<lambda>z. tol \<le> Im z) (x # xs),
      n @ filter (\<lambda>z. Im z \<le> - tol) (x # xs))"
    unfolding classify_step Cons.IH by simp
  finally show ?case .
qed

lemma has_conj_iff: "has_conj dst a bs \<longleftrightarrow> (\<exists>b\<in>set bs. dst a b < tol)"
  by (induction bs) auto

lemma check_conj_iff:
  "check_conj dst as bs
     = (if \<exists>a\<in>set as. \<not> has_conj dst a bs then Inl InvalidArgument else Inr ())"
  by (induction as) auto

lemma cplxpair_with_unfold:
  "cplxpair_with dst zs =
     (if length (filter (\<lambda>z. tol \<le> Im z) zs) \<noteq> length (filter (\<lambda>z. Im z \<le> - tol) zs)
         \<or> (\<exists>a\<in>set zs. tol \<le> Im a
               \<and> \<not> (\<exists>b\<in>set zs. Im b \<le> - tol \<and> dst a b < tol))
      then Inl InvalidArgument
      else Inr (map (\<lambda>z. Complex (Re z) 0)
                  (filter (\<lambda>z. \<bar>Im z\<bar> < tol) (std_sort complex_comparator zs)),
                filter (\<lambda>z. tol \<le> Im z) (std_sort complex_comparator zs)))"
proof -
  let ?s = "std_sort complex_comparator zs"
  have split: "fold classify ?s ([], [], []) =
      (map (\<lambda>z. Complex (Re z) 0) (filter (\<lambda>z. \<bar>Im z\<bar> < tol) ?s),
       filter (\<lambda>z. tol \<le> Im z) ?s, filter (\<lambda>z. Im z \<le> - tol) ?s)"
    using fold_classify [of ?s "[]" "[]" "[]"] by simp
  have search: "(\<exists>a\<in>set (filter (\<lambda>z. tol \<le> Im z) ?s).
                   \<not> has_conj dst a (filter (\<lambda>z. Im z \<le> - tol) ?s))
       \<longleftrightarrow> (\<exists>a\<in>set zs. tol \<le> Im a
               \<and> \<not> (\<exists>b\<in>set zs. Im b \<le> - tol \<and> dst a b < tol))"
    by (auto simp: has_conj_iff set_std_sort)
  show ?thesis
    unfolding cplxpair_with_def split
    by (simp add: count_std_sort check_conj_iff search del: set_filter)
qed

lemma cplxpair_unfold:
  "cplxpair zs =
     (if length (filter (\<lambda>z. tol \<le> Im z) zs) \<noteq> length (filter (\<lambda>z. Im z \<le> - tol) zs)
         \<or> (\<exists>a\<in>set zs. tol \<le> Im a
               \<and> \<not> (\<exists>b\<in>set zs. Im b \<le> - tol \<and> cmod (a - cnj b) < tol))
      then Inl InvalidArgument
      else Inr (map (\<lambda>z. Complex (Re z) 0)
                  (filter (\<lambda>z. \<bar>Im z\<bar> < tol) (std_sort complex_comparator zs)),
                filter (\<lambda>z. tol \<le> Im z) (std_sort complex_comparator zs)))"
  unfolding cplxpair_def cplxpair_with_unfold [of conj_distance zs] conj_distance_def ..










text \<open>
  Claim C6: whenever \<open>cplxpair\<close> succeeds, its output recombined (reals, representatives,
  conjugates of the representatives) gives back the input, element for element within the
  tolerance. The search for a partner only asks that every positive element has some
  negative partner: two positive elements may share one, and a negative element needs
  none. The input \<open>\<i>, \<i>, - \<i>, - 5 \<i>\<close> is accepted, and its recombination holds nothing
  within the tolerance of \<open>- 5 \<i>\<close>.
\<close>

theorem cplxpair_accepts_unmatched:
  "cplxpair [Complex 0 1, Complex 0 1, Complex 0 (- 1), Complex 0 (- 5)]
     = Inr ([], [Complex 0 1, Complex 0 1])
   \<and> recombine ([], [Complex 0 1, Complex 0 1])
     = [Complex 0 1, Complex 0 1, Complex 0 (- 1), Complex 0 (- 1)]
   \<and> \<not> within_tol (Complex 0 1) (Complex 0 (- 5))
   \<and> \<not> within_tol (Complex 0 (- 1)) (Complex 0 (- 5))"
  by (simp add: recombine_def within_tol_def cplxpair_eval)

section \<open>zpk2sos on a record without zeros and poles\<close>

text \<open>
  Claim C10: \<open>zpk2sos\<close> applied to a record with no zeros and no poles returns the empty
  sequence of sections and does not fail, whatever the gain; no section carries the gain.
\<close>

theorem zpk2sos_no_roots:
  "zpk2sos \<lparr>zeros = [], poles = [], gain = k\<rparr> = Inr []"
  by (simp add: zpk2sos_def zpk2sos_pad_def pad_loop.simps cplxpair_def cplxpair_with_def
        std_sort_def zpk2sos_finish_def)

section \<open>bilinear_transform\<close>










section \<open>zpk2sos: the padding loops\<close>

lemma wrapped_bound:
  fixes i d :: int
  assumes "0 \<le> i" "i \<le> INT_MAX" "0 < d" "d \<le> 2 ^ 63"
  shows "i mod 2 ^ 64 < (- d) mod 2 ^ 64"
proof -
  have "(- d) mod 2 ^ 64 = (- d + 2 ^ 64) mod 2 ^ 64"
    by simp
  also have "\<dots> = - d + 2 ^ 64"
    using assms(3,4) by (intro mod_pos_pos_trivial) simp_all
  finally have r: "(- d) mod 2 ^ 64 = 2 ^ 64 - d" by simp
  have l: "i mod 2 ^ 64 = i"
    using assms(1,2) by (intro mod_pos_pos_trivial) (simp_all add: INT_MAX_def)
  show ?thesis
    unfolding l r using assms by (simp add: INT_MAX_def)
qed

text \<open>
  When the vector that grows is already the longer one, the \<open>size_t\<close> difference wraps to
  a huge bound, every push moves it only by one, and the loop runs until its counter
  overflows.
\<close>

lemma pad_loop_runaway:
  "other_size < length grown \<Longrightarrow> 0 \<le> i \<Longrightarrow> i \<le> INT_MAX
     \<Longrightarrow> int (length grown) - i \<le> 2 ^ 62
     \<Longrightarrow> pad_loop other_size i grown = Inl SignedOverflow"
proof (induction other_size i grown rule: pad_loop.induct)
  case (1 other_size i grown)
  have d: "0 < int (length grown) - int other_size"
          "int (length grown) - int other_size \<le> 2 ^ 63"
    using "1.prems" by (simp_all add: INT_MAX_def)
  have cond: "i mod 2 ^ 64 < (int other_size - int (length grown)) mod 2 ^ 64"
    using wrapped_bound [OF "1.prems"(2,3) d] by simp
  show ?case
  proof (cases "INT_MAX \<le> i")
    case True
    with cond show ?thesis
      by (simp add: pad_loop.simps [of other_size i grown])
  next
    case False
    have "pad_loop other_size (i + 1) (grown @ [0]) = Inl SignedOverflow"
      using "1.IH" [OF cond False] "1.prems" False by simp
    with cond False show ?thesis
      by (simp add: pad_loop.simps [of other_size i grown])
  qed
qed

text \<open>
  Claim C3: for every input, also with more poles than zeros or more zeros than poles,
  the preprocessing pads the shorter array with zero entries until the counts agree,
  terminates, and leaves the longer array unchanged. The theorem runs the preprocessing
  on one pole and no zero, where the first loop pushes onto the poles, the longer array,
  until its counter overflows; and on two zeros and no pole, where the first loop stops
  after one push, one short of the two zeros, and the second loop then pushes onto the
  zeros until its counter overflows.
\<close>

theorem zpk2sos_pad_runs_away:
  "zpk2sos_pad \<lparr>zeros = [], poles = [Complex (1 / 2) 0], gain = 1\<rparr> = Inl SignedOverflow
   \<and> pad_loop 2 0 [] = Inr [0]
   \<and> zpk2sos_pad \<lparr>zeros = [- 1, - 1], poles = [], gain = 1\<rparr> = Inl SignedOverflow"
proof -
  have a: "pad_loop 0 0 [Complex (1 / 2) 0] = Inl SignedOverflow"
    by (rule pad_loop_runaway) (simp_all add: INT_MAX_def)
  have b: "pad_loop 2 0 [] = Inr [0]"
    by (simp add: pad_loop.simps [of 2 0 "[]"] pad_loop.simps [of 2 1 "[0]"] INT_MAX_def)
  have c: "pad_loop 1 0 [- 1, - 1] = Inl SignedOverflow"
    by (rule pad_loop_runaway) (simp_all add: INT_MAX_def)
  have "zpk2sos_pad \<lparr>zeros = [- 1, - 1], poles = [], gain = 1\<rparr> = Inl SignedOverflow"
    using b c by (simp add: zpk2sos_pad_def numeral_2_eq_2)
  then show ?thesis
    using a b by (simp add: zpk2sos_pad_def)
qed

text \<open>
  Claim C4: on every valid digital record \<open>zpk2sos\<close> consumes all poles and zeros and
  returns \<open>ceil (max \<bar>zeros\<bar> \<bar>poles\<bar> / 2)\<close> sections. A record with more poles than zeros
  never gets past the first padding loop, so no section is returned.
\<close>

theorem zpk2sos_more_poles_than_zeros:
  assumes "length (zeros z) < length (poles z)" and "length (poles z) \<le> 2 ^ 62"
  shows "zpk2sos z = Inl SignedOverflow"
proof -
  have "int (length (poles z)) \<le> 2 ^ 62"
    using assms(2) by (metis of_nat_le_iff of_nat_numeral of_nat_power)
  then have "pad_loop (length (zeros z)) 0 (poles z) = Inl SignedOverflow"
    using assms(1) by (intro pad_loop_runaway) (simp_all add: INT_MAX_def)
  then show ?thesis
    by (simp add: zpk2sos_def zpk2sos_pad_def)
qed

text \<open>The theorem at the transfer function \<open>1 / (z - 1 / 2)\<close>: one real pole, no zero.\<close>

theorem zpk2sos_more_poles_than_zeros_witness:
  "zpk2sos \<lparr>zeros = [], poles = [Complex (1 / 2) 0], gain = 1\<rparr> = Inl SignedOverflow"
  using zpk2sos_more_poles_than_zeros [of "\<lparr>zeros = [], poles = [Complex (1 / 2) 0], gain = 1\<rparr>"]
  by simp

section \<open>zpk2sos: records with as many zeros as poles\<close>

text \<open>
  When the padding loops leave the record alone and \<open>cplxpair\<close> accepts both arrays,
  the pairing loop keeps the numbers of real poles and of real zeros even and the weights
  of the two lists equal. Each iteration then takes the nearest zero of either kind, the
  first-order branch and the nearest-complex-zero branch are never entered, and after
  \<open>n_sections\<close> iterations both lists are empty. This part rests on the model of
  \<open>pop_nearest_real_complex\<close>.
\<close>

lemma pad_loop_stops: "pad_loop (length grown) i grown = Inr grown"
proof -
  have "0 \<le> i mod 2 ^ 64" by simp
  then have "\<not> i mod 2 ^ 64 < 0" by linarith
  then show ?thesis
    by (simp add: pad_loop.simps [of "length grown" i grown])
qed

lemma count_real_eq: "count_real xs = real_count xs"
  by (simp add: count_real_def is_real_list_def real_count_def filter_map comp_def)

lemma real_count_le: "real_count xs \<le> length xs"
  by (simp add: real_count_def)

lemma is_real_Im0: "Im z = 0 \<Longrightarrow> is_real z"
  by (simp add: is_real_def epsilon_def)

lemma is_real_cnj: "is_real (cnj z) = is_real z"
  by (simp add: is_real_def)

lemma min_scan_less: "si < i \<Longrightarrow> min_scan lt xs i smallest si < i + length xs"
proof (induction xs arbitrary: i smallest si)
  case Nil
  then show ?case by simp
next
  case (Cons x xs)
  have a: "min_scan lt xs (Suc i) x i < Suc i + length xs"
    by (rule Cons.IH) simp
  have b: "min_scan lt xs (Suc i) smallest si < Suc i + length xs"
    by (rule Cons.IH) (use Cons.prems in simp)
  from a b show ?case by simp
qed

lemma min_element_less: "xs \<noteq> [] \<Longrightarrow> min_element lt xs < length xs"
proof (cases xs)
  case Nil
  then show "xs \<noteq> [] \<Longrightarrow> ?thesis" by simp
next
  case (Cons x rest)
  have "min_scan lt rest 1 x 0 < 1 + length rest"
    by (rule min_scan_less) simp
  with Cons show ?thesis by (simp add: min_element_def)
qed

lemma erase_length: "j < length xs \<Longrightarrow> length (erase xs j) = length xs - 1"
  by (simp add: erase_def)

lemma erase_set: "set (erase xs j) \<subseteq> set xs"
  by (auto simp: erase_def dest: in_set_takeD in_set_dropD)

lemma erase_count:
  assumes "j < length xs"
  shows "length (filter P xs) = length (filter P (erase xs j)) + (if P (xs ! j) then 1 else 0)"
proof -
  have "xs = take j xs @ xs ! j # drop (Suc j) xs"
    using assms by (rule id_take_nth_drop)
  then have "filter P xs = filter P (take j xs @ xs ! j # drop (Suc j) xs)"
    by simp
  then show ?thesis
    by (simp add: erase_def)
qed

lemma erase_real_count:
  "j < length xs \<Longrightarrow> real_count xs = real_count (erase xs j) + (if is_real (xs ! j) then 1 else 0)"
  unfolding real_count_def by (rule erase_count)

lemma pop_nearest_found:
  assumes "\<exists>x\<in>set fro. is_real x = w"
  shows "\<exists>j<length fro. is_real (fro ! j) = w
           \<and> pop_nearest_real_complex fro to w = Inr (fro ! j, erase fro j)"
proof -
  let ?idxs = "filter (\<lambda>i. is_real (fro ! i) = w) [0..<length fro]"
  from assms obtain i where "i < length fro" "is_real (fro ! i) = w"
    by (auto simp: in_set_conv_nth)
  then have "i \<in> set ?idxs" by simp
  then have ne: "?idxs \<noteq> []" by (metis empty_iff empty_set)
  then obtain k ks where idxs: "?idxs = k # ks" by (cases ?idxs) auto
  let ?m = "min_element (\<lambda>i1 i2. cmod (fro ! i1 - to) < cmod (fro ! i2 - to)) (k # ks)"
  have "?m < length (k # ks)" by (rule min_element_less) simp
  then have "(k # ks) ! ?m \<in> set ?idxs" unfolding idxs by (rule nth_mem)
  then have j: "(k # ks) ! ?m < length fro" "is_real (fro ! ((k # ks) ! ?m)) = w"
    by simp_all
  have "pop_nearest_real_complex fro to w = Inr (fro ! ((k # ks) ! ?m), erase fro ((k # ks) ! ?m))"
    unfolding pop_nearest_real_complex_def idxs by (simp add: Let_def)
  with j show ?thesis by blast
qed

lemma find_if_found:
  "\<exists>x\<in>set xs. P x \<Longrightarrow> \<exists>k<length xs. find_if P xs = Some k \<and> P (xs ! k)"
proof (induction xs)
  case Nil
  then show ?case by simp
next
  case (Cons x xs)
  show ?case
  proof (cases "P x")
    case True
    then show ?thesis by auto
  next
    case False
    with Cons.prems have "\<exists>x\<in>set xs. P x" by simp
    from Cons.IH [OF this] obtain k where "k < length xs" "find_if P xs = Some k" "P (xs ! k)"
      by blast
    with False show ?thesis by auto
  qed
qed

lemma real_count_pos: "0 < real_count xs \<Longrightarrow> \<exists>x\<in>set xs. is_real x = True"
  unfolding real_count_def by (metis (mono_tags, lifting) filter_False length_greater_0_conv list.size(3) less_irrefl)


lemma erase_root_weight:
  "j < length xs \<Longrightarrow> root_weight xs = root_weight (erase xs j) + (if is_real (xs ! j) then 1 else 2)"
  unfolding root_weight_def real_count_def
  using erase_count [of j xs is_real] erase_count [of j xs "\<lambda>z. \<not> is_real z"]
  by simp

lemma erase_exact_root: "list_all exact_root xs \<Longrightarrow> list_all exact_root (erase xs j)"
  using erase_set [of xs j] by (auto simp: list_all_iff)

lemma nth_exact_root: "list_all exact_root xs \<Longrightarrow> j < length xs \<Longrightarrow> exact_root (xs ! j)"
  by (simp add: list_all_length)

lemma exact_root_real: "exact_root z \<Longrightarrow> is_real z \<Longrightarrow> Im z = 0"
  by (simp add: exact_root_def)

lemma root_weight_Cons: "root_weight (x # xs) = root_weight xs + (if is_real x then 1 else 2)"
  by (simp add: root_weight_def real_count_def)

lemma real_count_Cons: "real_count (x # xs) = real_count xs + (if is_real x then 1 else 0)"
  by (simp add: real_count_def)

lemma root_weight_Nil_iff: "root_weight xs = 0 \<longleftrightarrow> xs = []"
proof
  assume "root_weight xs = 0"
  then have "length (filter is_real xs) + length (filter (\<lambda>z. \<not> is_real z) xs) = 0"
    by (simp add: root_weight_def real_count_def)
  then show "xs = []"
    by (simp only: sum_length_filter_compl length_0_conv)
qed (simp add: root_weight_def real_count_def)

lemma pair_first_zero_nearest:
  assumes "\<not> (\<not> is_real p1 \<and> count_real ps = 1)" and "zs \<noteq> []"
  shows "\<exists>i<length zs. pair_first_zero p1 ps zs = Inr (zs ! i, erase zs i)"
proof -
  let ?i = "min_element (\<lambda>zi zj. cmod (p1 - zi) < cmod (p1 - zj)) zs"
  have "?i < length zs" using assms(2) by (rule min_element_less)
  moreover from this assms(1) have "pair_first_zero p1 ps zs = Inr (zs ! ?i, erase zs ?i)"
    by (auto simp: pair_first_zero_def Let_def vector_at_def)
  ultimately show ?thesis by blast
qed

lemma pair_section_step:
  assumes ex: "list_all exact_root ps" "list_all exact_root zs"
    and ev: "even (real_count ps)" "even (real_count zs)"
    and w: "root_weight ps = root_weight zs"
    and ne: "ps \<noteq> []"
  shows "\<exists>p1 p2 z1 z2 ps' zs'.
           pair_section ps zs = Inr ((p1, p2), (z1, z2), ps', zs')
         \<and> list_all exact_root ps' \<and> list_all exact_root zs'
         \<and> even (real_count ps') \<and> even (real_count zs')
         \<and> root_weight ps' = root_weight zs' \<and> root_weight ps = root_weight ps' + 2
         \<and> pair_ok p1 p2 \<and> pair_ok z1 z2"
proof -
  from ne obtain p1 rest where ps: "ps = p1 # rest" by (cases ps) auto
  have exr: "list_all exact_root rest" and exp1: "exact_root p1" using ex(1) ps by simp_all
  have "root_weight ps \<noteq> 0" using ne by (simp add: root_weight_Nil_iff)
  with w have zne: "zs \<noteq> []" by (auto simp: root_weight_Nil_iff)
  show ?thesis
  proof (cases "is_real p1")
    case True
    with ev(1) ps have odd_rest: "odd (real_count rest)" by (simp add: real_count_Cons)
    then have pos_rest: "0 < real_count rest" by (cases "real_count rest") auto
    then have cr: "count_real rest \<noteq> 0" by (simp add: count_real_eq)
    from pair_first_zero_nearest [of p1 rest zs] True zne
    obtain i where i: "i < length zs"
      and pfz: "pair_first_zero p1 rest zs = Inr (zs ! i, erase zs i)" by auto
    have exz1: "exact_root (zs ! i)" using ex(2) i by (rule nth_exact_root)
    show ?thesis
    proof (cases "is_real (zs ! i)")
      case False
      from pop_nearest_found [OF real_count_pos [OF pos_rest], of "zs ! i"]
      obtain j where j: "j < length rest" "is_real (rest ! j)"
        and pop: "pop_nearest_real_complex rest (zs ! i) True = Inr (rest ! j, erase rest j)"
        by auto
      have res: "pair_section ps zs
            = Inr ((p1, rest ! j), (zs ! i, cnj (zs ! i)), erase rest j, erase zs i)"
        using True cr pfz False pop j(2) by (simp add: pair_section_def ps)
      have "Im p1 = 0" using exp1 True by (rule exact_root_real)
      moreover have "Im (rest ! j) = 0" using nth_exact_root [OF exr j(1)] j(2) by (rule exact_root_real)
      ultimately have s1: "pair_ok p1 (rest ! j)" using True by (simp add: pair_ok_def)
      have s2: "pair_ok (zs ! i) (cnj (zs ! i))" using False by (simp add: pair_ok_def)
      have n1: "real_count rest = real_count (erase rest j) + 1" using erase_real_count [OF j(1)] j(2) by simp
      have n2: "real_count zs = real_count (erase zs i)" using erase_real_count [OF i] False by simp
      have w1: "root_weight rest = root_weight (erase rest j) + 1" using erase_root_weight [OF j(1)] j(2) by simp
      have w2: "root_weight zs = root_weight (erase zs i) + 2" using erase_root_weight [OF i] False by simp
      have w0: "root_weight ps = root_weight rest + 1" using True by (simp add: ps root_weight_Cons)
      have e1: "even (real_count (erase rest j))" using odd_rest n1 by simp
      have e2: "even (real_count (erase zs i))" using ev(2) n2 by simp
      show ?thesis
        using res s1 s2 e1 e2 erase_exact_root [OF exr, of j] erase_exact_root [OF ex(2), of i] w w0 w1 w2
        by simp
    next
      case zr: True
      from find_if_found [of rest is_real] real_count_pos [OF pos_rest]
      obtain k where k: "k < length rest" "find_if is_real rest = Some k" "is_real (rest ! k)"
        by auto
      have nz: "real_count zs = real_count (erase zs i) + 1" using erase_real_count [OF i] zr by simp
      with ev(2) have "odd (real_count (erase zs i))" by simp
      then have "0 < real_count (erase zs i)" by (cases "real_count (erase zs i)") auto
      from pop_nearest_found [OF real_count_pos [OF this], of "rest ! k"]
      obtain j where j: "j < length (erase zs i)" "is_real (erase zs i ! j)"
        and pop: "pop_nearest_real_complex (erase zs i) (rest ! k) True
                    = Inr (erase zs i ! j, erase (erase zs i) j)"
        by auto
      have res: "pair_section ps zs
            = Inr ((p1, rest ! k), (zs ! i, erase zs i ! j), erase rest k, erase (erase zs i) j)"
        using True cr pfz zr k(2) pop j(2) by (simp add: pair_section_def ps)
      have "Im p1 = 0" using exp1 True by (rule exact_root_real)
      moreover have "Im (rest ! k) = 0" using nth_exact_root [OF exr k(1)] k(3) by (rule exact_root_real)
      ultimately have s1: "pair_ok p1 (rest ! k)" using True by (simp add: pair_ok_def)
      have exe: "list_all exact_root (erase zs i)" using ex(2) by (rule erase_exact_root)
      have "Im (zs ! i) = 0" using exz1 zr by (rule exact_root_real)
      moreover have "Im (erase zs i ! j) = 0"
        using nth_exact_root [OF exe j(1)] j(2) by (rule exact_root_real)
      ultimately have s2: "pair_ok (zs ! i) (erase zs i ! j)" using zr by (simp add: pair_ok_def)
      have n1: "real_count rest = real_count (erase rest k) + 1" using erase_real_count [OF k(1)] k(3) by simp
      have n2: "real_count (erase zs i) = real_count (erase (erase zs i) j) + 1" using erase_real_count [OF j(1)] j(2) by simp
      have w1: "root_weight rest = root_weight (erase rest k) + 1" using erase_root_weight [OF k(1)] k(3) by simp
      have w2: "root_weight zs = root_weight (erase zs i) + 1" using erase_root_weight [OF i] zr by simp
      have w3: "root_weight (erase zs i) = root_weight (erase (erase zs i) j) + 1"
        using erase_root_weight [OF j(1)] j(2) by simp
      have w0: "root_weight ps = root_weight rest + 1" using True by (simp add: ps root_weight_Cons)
      have e1: "even (real_count (erase rest k))" using odd_rest n1 by simp
      have e2: "even (real_count (erase (erase zs i) j))" using ev(2) nz n2 by simp
      show ?thesis
        using res s1 s2 e1 e2 erase_exact_root [OF exr, of k] erase_exact_root [OF exe, of j] w w0 w1 w2 w3
        by simp
    qed
  next
    case False
    with ev(1) ps have ev_rest: "even (real_count rest)" by (simp add: real_count_Cons)
    then have "count_real rest \<noteq> 1" by (auto simp: count_real_eq)
    from pair_first_zero_nearest [of p1 rest zs] this zne
    obtain i where i: "i < length zs"
      and pfz: "pair_first_zero p1 rest zs = Inr (zs ! i, erase zs i)" by auto
    have exz1: "exact_root (zs ! i)" using ex(2) i by (rule nth_exact_root)
    have s1: "pair_ok p1 (cnj p1)" using False by (simp add: pair_ok_def)
    have w0: "root_weight ps = root_weight rest + 2" using False by (simp add: ps root_weight_Cons)
    show ?thesis
    proof (cases "is_real (zs ! i)")
      case zc: False
      have res: "pair_section ps zs
            = Inr ((p1, cnj p1), (zs ! i, cnj (zs ! i)), rest, erase zs i)"
        using False pfz zc by (simp add: pair_section_def ps)
      have s2: "pair_ok (zs ! i) (cnj (zs ! i))" using zc by (simp add: pair_ok_def)
      have n2: "real_count zs = real_count (erase zs i)" using erase_real_count [OF i] zc by simp
      have w2: "root_weight zs = root_weight (erase zs i) + 2" using erase_root_weight [OF i] zc by simp
      show ?thesis
        using res s1 s2 ev_rest ev(2) n2 exr erase_exact_root [OF ex(2), of i] w w0 w2
        by simp
    next
      case zr: True
      have nz: "real_count zs = real_count (erase zs i) + 1" using erase_real_count [OF i] zr by simp
      with ev(2) have "odd (real_count (erase zs i))" by simp
      then have "0 < real_count (erase zs i)" by (cases "real_count (erase zs i)") auto
      from pop_nearest_found [OF real_count_pos [OF this], of p1]
      obtain j where j: "j < length (erase zs i)" "is_real (erase zs i ! j)"
        and pop: "pop_nearest_real_complex (erase zs i) p1 True
                    = Inr (erase zs i ! j, erase (erase zs i) j)"
        by auto
      have res: "pair_section ps zs
            = Inr ((p1, cnj p1), (zs ! i, erase zs i ! j), rest, erase (erase zs i) j)"
        using False pfz zr pop j(2) by (simp add: pair_section_def ps)
      have exe: "list_all exact_root (erase zs i)" using ex(2) by (rule erase_exact_root)
      have "Im (zs ! i) = 0" using exz1 zr by (rule exact_root_real)
      moreover have "Im (erase zs i ! j) = 0"
        using nth_exact_root [OF exe j(1)] j(2) by (rule exact_root_real)
      ultimately have s2: "pair_ok (zs ! i) (erase zs i ! j)" using zr by (simp add: pair_ok_def)
      have n2: "real_count (erase zs i) = real_count (erase (erase zs i) j) + 1" using erase_real_count [OF j(1)] j(2) by simp
      have w2: "root_weight zs = root_weight (erase zs i) + 1" using erase_root_weight [OF i] zr by simp
      have w3: "root_weight (erase zs i) = root_weight (erase (erase zs i) j) + 1"
        using erase_root_weight [OF j(1)] j(2) by simp
      have e2: "even (real_count (erase (erase zs i) j))" using ev(2) nz n2 by simp
      show ?thesis
        using res s1 s2 ev_rest e2 exr erase_exact_root [OF exe, of j] w w0 w2 w3
        by simp
    qed
  qed
qed


text \<open>
  With even numbers of real poles and of real zeros at the start of an iteration, neither
  of the two special guards holds, and the zeros never hold exactly one real zero.
\<close>

lemma special_guards_idle:
  assumes "even (real_count (p1 # rest))" and "even (real_count zs)"
  shows "\<not> (is_real p1 \<and> count_real rest = 0)"
    and "\<not> (\<not> is_real p1 \<and> count_real rest = 1)"
    and "count_real zs \<noteq> 1"
proof -
  show "\<not> (is_real p1 \<and> count_real rest = 0)"
  proof
    assume "is_real p1 \<and> count_real rest = 0"
    then have "real_count (p1 # rest) = 1"
      by (simp add: count_real_eq real_count_Cons)
    with assms(1) show False by simp
  qed
  show "\<not> (\<not> is_real p1 \<and> count_real rest = 1)"
  proof
    assume "\<not> is_real p1 \<and> count_real rest = 1"
    then have "real_count (p1 # rest) = 1"
      by (simp add: count_real_eq real_count_Cons)
    with assms(1) show False by simp
  qed
  show "count_real zs \<noteq> 1"
  proof
    assume "count_real zs = 1"
    then have "real_count zs = 1" by (simp add: count_real_eq)
    with assms(2) show False by simp
  qed
qed

lemma pairing_loop_consumes:
  assumes "list_all exact_root ps" "list_all exact_root zs" "even (real_count ps)" "even (real_count zs)"
    and "root_weight ps = root_weight zs" and "root_weight ps = 2 * n"
  shows "\<exists>P Z. pairing_loop n ps zs poles_sos zeros_sos = Inr ([], [], poles_sos @ P, zeros_sos @ Z)
           \<and> length P = n \<and> length Z = n \<and> list_all section_ok P \<and> list_all section_ok Z"
  using assms
proof (induction n arbitrary: ps zs poles_sos zeros_sos)
  case 0
  then have "ps = []" "zs = []" by (simp_all add: root_weight_Nil_iff)
  then show ?case by simp
next
  case (Suc n)
  from Suc.prems(6) have "root_weight ps \<noteq> 0" by simp
  then have "ps \<noteq> []" by (simp add: root_weight_Nil_iff)
  from pair_section_step [OF Suc.prems(1-5) this]
  obtain p1 p2 z1 z2 ps' zs' where
    step: "pair_section ps zs = Inr ((p1, p2), (z1, z2), ps', zs')"
    and inv: "list_all exact_root ps'" "list_all exact_root zs'" "even (real_count ps')" "even (real_count zs')"
             "root_weight ps' = root_weight zs'"
    and dec: "root_weight ps = root_weight ps' + 2"
    and ok: "pair_ok p1 p2" "pair_ok z1 z2"
    by blast
  from dec Suc.prems(6) have "root_weight ps' = 2 * n" by simp
  from Suc.IH [OF inv this, of "poles_sos @ [[p1, p2]]" "zeros_sos @ [[z1, z2]]"]
  obtain P Z where
    run: "pairing_loop n ps' zs' (poles_sos @ [[p1, p2]]) (zeros_sos @ [[z1, z2]])
            = Inr ([], [], (poles_sos @ [[p1, p2]]) @ P, (zeros_sos @ [[z1, z2]]) @ Z)"
    and len: "length P = n" "length Z = n"
    and oks: "list_all section_ok P" "list_all section_ok Z"
    by blast
  have "pairing_loop (Suc n) ps zs poles_sos zeros_sos
          = Inr ([], [], poles_sos @ ([p1, p2] # P), zeros_sos @ ([z1, z2] # Z))"
    using step run by simp
  moreover have "list_all section_ok ([p1, p2] # P)" "list_all section_ok ([z1, z2] # Z)"
    using ok oks by (simp_all add: section_ok_def)
  ultimately show ?case using len
    by (intro exI [of _ "[p1, p2] # P"] exI [of _ "[z1, z2] # Z"]) simp
qed

lemma pair_ok_sum: "pair_ok a b \<Longrightarrow> Im a + Im b = 0"
  by (auto simp: pair_ok_def split: if_splits)

lemma pair_ok_prod: "pair_ok a b \<Longrightarrow> Re a * Im b + Im a * Re b = 0"
  by (auto simp: pair_ok_def split: if_splits)

lemma zpk2tf_ok:
  assumes "pair_ok p0 p1" and "pair_ok z0 z1"
  shows "\<exists>b. zpk2tf \<lparr>zeros = [z0, z1], poles = [p0, p1], gain = k\<rparr> = Inr b"
proof -
  have a: "is_real (Complex 1 0)" "is_real (- p0 - p1)" "is_real (p0 * p1)"
    using pair_ok_sum [OF assms(1)] pair_ok_prod [OF assms(1)]
    by (auto intro!: is_real_Im0)
  have "Im (of_real k * (- z0 - z1)) = - k * (Im z0 + Im z1)"
    by (simp add: algebra_simps)
  moreover have "Im (of_real k * z0 * z1) = k * (Re z0 * Im z1 + Im z0 * Re z1)"
    by (simp add: algebra_simps)
  ultimately have b: "is_real (of_real k * Complex 1 0)" "is_real (of_real k * (- z0 - z1))"
      "is_real (of_real k * z0 * z1)"
    using pair_ok_sum [OF assms(2)] pair_ok_prod [OF assms(2)]
    by (auto intro!: is_real_Im0)
  show ?thesis
    using a b by (simp add: zpk2tf_def vector_at_def Let_def)
qed

lemma emit_sections_ok:
  assumes "list_all section_ok poles_sos" "list_all section_ok zeros_sos"
    and "m \<le> length poles_sos" "m \<le> length zeros_sos"
  shows "\<exists>sos. emit_sections k n zeros_sos poles_sos m = Inr sos \<and> length sos = m"
  using assms(3,4)
proof (induction m)
  case 0
  show ?case by simp
next
  case (Suc m)
  then obtain sos where rest: "emit_sections k n zeros_sos poles_sos m = Inr sos" "length sos = m"
    by auto
  from Suc.prems assms(1,2) have "section_ok (poles_sos ! m)" "section_ok (zeros_sos ! m)"
    by (simp_all add: list_all_length)
  then obtain p0 p1 z0 z1 where
    secs: "poles_sos ! m = [p0, p1]" "pair_ok p0 p1" "zeros_sos ! m = [z0, z1]" "pair_ok z0 z1"
    by (auto simp: section_ok_def split: list.splits)
  from zpk2tf_ok [OF secs(2,4)] obtain b where
    "zpk2tf \<lparr>zeros = [z0, z1], poles = [p0, p1],
             gain = (if int m = n - 1 then k else 1)\<rparr> = Inr b"
    by blast
  with rest secs Suc.prems show ?case
    by (simp add: vector_at_def)
qed


lemma one_class:
  "(\<bar>Im x\<bar> < tol \<and> \<not> tol \<le> Im x \<and> \<not> Im x \<le> - tol)
   \<or> (\<not> \<bar>Im x\<bar> < tol \<and> tol \<le> Im x \<and> \<not> Im x \<le> - tol)
   \<or> (\<not> \<bar>Im x\<bar> < tol \<and> \<not> tol \<le> Im x \<and> Im x \<le> - tol)"
  using tol_pos by linarith

lemma three_classes:
  "length xs = length (filter (\<lambda>z. \<bar>Im z\<bar> < tol) xs)
             + length (filter (\<lambda>z. tol \<le> Im z) xs)
             + length (filter (\<lambda>z. Im z \<le> - tol) xs)"
proof (induction xs)
  case Nil
  show ?case by simp
next
  case (Cons x xs)
  from one_class [of x] Cons.IH show ?case
    by (elim disjE conjE) simp_all
qed

lemma is_real_tol: "is_real z \<longleftrightarrow> \<bar>Im z\<bar> < tol"
  by (simp add: is_real_def tol_def)

lemma cplxpair_roots:
  assumes "cplxpair xs = Inr (r, p)"
  shows "list_all exact_root (r @ p)" and "real_count (r @ p) = length r"
    and "root_weight (r @ p) = length xs" and "length xs = length r + 2 * length p"
proof -
  let ?s = "std_sort complex_comparator xs"
  from assms have r: "r = map (\<lambda>z. Complex (Re z) 0) (filter (\<lambda>z. \<bar>Im z\<bar> < tol) ?s)"
    and p: "p = filter (\<lambda>z. tol \<le> Im z) ?s"
    and bal: "length (filter (\<lambda>z. tol \<le> Im z) xs) = length (filter (\<lambda>z. Im z \<le> - tol) xs)"
    unfolding cplxpair_unfold [of xs] by (auto split: if_splits)
  have rr: "\<forall>z\<in>set r. Im z = 0" unfolding r by auto
  have pp: "\<forall>z\<in>set p. \<not> is_real z" unfolding p is_real_tol by auto
  show "list_all exact_root (r @ p)"
    using rr pp by (auto simp: list_all_iff exact_root_def)
  have fr: "filter is_real r = r" "filter (\<lambda>z. \<not> is_real z) r = []"
    using rr by (auto simp: filter_id_conv filter_empty_conv intro: is_real_Im0)
  have fp: "filter is_real p = []" "filter (\<lambda>z. \<not> is_real z) p = p"
    using pp by (auto simp: filter_id_conv filter_empty_conv)
  show real_count: "real_count (r @ p) = length r"
    by (simp add: real_count_def fr fp)
  have lr: "length r = length (filter (\<lambda>z. \<bar>Im z\<bar> < tol) xs)"
    unfolding r by (simp add: count_std_sort)
  have lp: "length p = length (filter (\<lambda>z. tol \<le> Im z) xs)"
    unfolding p by (simp add: count_std_sort)
  show len: "length xs = length r + 2 * length p"
    using three_classes [of xs] bal lr lp by simp
  show "root_weight (r @ p) = length xs"
    unfolding len by (simp add: root_weight_def real_count_def fr fp)
qed

lemma cplxpair_snoc_zero:
  assumes "cplxpair xs = Inr out"
  shows "\<exists>out'. cplxpair (xs @ [0]) = Inr out'"
proof -
  have "\<not> tol \<le> Im (0::complex)" "\<not> Im (0::complex) \<le> - tol"
    using tol_pos by simp_all
  with assms show ?thesis
    unfolding cplxpair_unfold [of xs] cplxpair_unfold [of "xs @ [0]"]
    by (auto split: if_splits)
qed

lemma std_sort_roots:
  "list_all exact_root (std_sort lt xs) = list_all exact_root xs"
  "real_count (std_sort lt xs) = real_count xs"
  "root_weight (std_sort lt xs) = root_weight xs"
  by (simp_all add: list_all_iff set_std_sort real_count_def root_weight_def count_std_sort)

lemma zpk2sos_pad_length: "zpk2sos_pad z = Inr z1 \<Longrightarrow> length (poles z1) = length (zeros z1)"
  by (auto simp: zpk2sos_pad_def split: sum.splits if_splits)

lemma zpk2sos_run:
  assumes len: "length ps = length zs" and even: "length zs = 2 * n"
    and vp: "cplxpair ps = Inr (poles_r, poles_i)" and vz: "cplxpair zs = Inr (zeros_r, zeros_i)"
  shows "\<exists>sos. (case pairing_loop n (std_sort unit_circle_closer (poles_r @ poles_i))
                        (zeros_r @ zeros_i) [] [] of
                  Inl e \<Rightarrow> Inl e
                | Inr st \<Rightarrow> zpk2sos_finish k (int n) st) = Inr sos \<and> length sos = n"
proof -
  let ?ps = "std_sort unit_circle_closer (poles_r @ poles_i)"
  let ?zs = "zeros_r @ zeros_i"
  note rp = cplxpair_roots [OF vp] and rz = cplxpair_roots [OF vz]
  have "even (length poles_r)" using rp(4) len even by presburger
  then have e1: "even (real_count ?ps)" by (simp add: std_sort_roots rp(2))
  have "even (length zeros_r)" using rz(4) even by presburger
  then have e2: "even (real_count ?zs)" by (simp add: rz(2))
  have x1: "list_all exact_root ?ps" using rp(1) by (simp add: std_sort_roots)
  have w1: "root_weight ?ps = root_weight ?zs" using rp(3) rz(3) len by (simp add: std_sort_roots)
  have w2: "root_weight ?ps = 2 * n" using rp(3) len even by (simp add: std_sort_roots)
  from pairing_loop_consumes [OF x1 rz(1) e1 e2 w1 w2, of "[]" "[]"]
  obtain P Z where run: "pairing_loop n ?ps ?zs [] [] = Inr ([], [], P, Z)"
    and l: "length P = n" "length Z = n" and ok: "list_all section_ok P" "list_all section_ok Z"
    by auto
  from emit_sections_ok [OF ok, of n k "int n"] l
  obtain sos where "emit_sections k (int n) Z P n = Inr sos" "length sos = n"
    by auto
  with run show ?thesis
    by (simp add: zpk2sos_finish_def)
qed

lemma zpk2sos_after_pad:
  assumes pad: "zpk2sos_pad z = Inr z1"
    and vp: "cplxpair (poles z1) = Inr outp" and vz: "cplxpair (zeros z1) = Inr outz"
  shows "\<exists>sos. zpk2sos z = Inr sos \<and> length sos = (length (zeros z1) + 1) div 2"
proof -
  note len = zpk2sos_pad_length [OF pad]
  let ?n = "Suc (length (zeros z1)) div 2"
  have "\<exists>sos. zpk2sos z = Inr sos \<and> length sos = ?n"
  proof (cases "length (zeros z1) mod 2 = 1")
    case False
    then have ev: "length (zeros z1) = 2 * ?n" by presburger
    obtain pr pi zr zi where o: "outp = (pr, pi)" "outz = (zr, zi)"
      by (cases outp, cases outz) auto
    have eq: "zpk2sos z =
        (case pairing_loop ?n (std_sort unit_circle_closer (pr @ pi)) (zr @ zi) [] [] of
           Inl e \<Rightarrow> Inl e
         | Inr st \<Rightarrow> zpk2sos_finish (gain z1) (int ?n) st)"
      using pad False vp vz o by (simp add: zpk2sos_def Let_def cong: sum.case_cong)
    show ?thesis
      unfolding eq by (rule zpk2sos_run [OF len ev vp [unfolded o] vz [unfolded o]])
  next
    case True
    then have ev: "length (zeros z1 @ [0]) = 2 * ?n" by simp presburger
    from cplxpair_snoc_zero [OF vp] obtain pr pi where
      vp': "cplxpair (poles z1 @ [0]) = Inr (pr, pi)" by auto
    from cplxpair_snoc_zero [OF vz] obtain zr zi where
      vz': "cplxpair (zeros z1 @ [0]) = Inr (zr, zi)" by auto
    have len': "length (poles z1 @ [0]) = length (zeros z1 @ [0])" using len by simp
    have eq: "zpk2sos z =
        (case pairing_loop ?n (std_sort unit_circle_closer (pr @ pi)) (zr @ zi) [] [] of
           Inl e \<Rightarrow> Inl e
         | Inr st \<Rightarrow> zpk2sos_finish (gain z1) (int ?n) st)"
      using pad True vp' vz' by (simp add: zpk2sos_def Let_def cong: sum.case_cong)
    show ?thesis
      unfolding eq by (rule zpk2sos_run [OF len' ev vp' vz'])
  qed
  then show ?thesis by simp
qed

lemma zpk2sos_balanced:
  assumes "length (zeros z) = length (poles z)"
    and "cplxpair (poles z) = Inr outp" and "cplxpair (zeros z) = Inr outz"
  shows "\<exists>sos. zpk2sos z = Inr sos \<and> length sos = (length (zeros z) + 1) div 2"
proof -
  have "zpk2sos_pad z = Inr z"
    using assms(1) pad_loop_stops [of "poles z" 0] pad_loop_stops [of "zeros z" 0]
    by (simp add: zpk2sos_pad_def)
  from zpk2sos_after_pad [OF this assms(2,3)] show ?thesis .
qed

section \<open>zpk2sos: where the gain goes\<close>

lemma zpk2tf_b0: "zpk2tf s = Inr b \<Longrightarrow> m_b0 b = gain s"
  by (auto simp: zpk2tf_def Let_def new_biquad_def split: sum.splits if_splits)

lemma emit_sections_b0:
  "emit_sections k n zeros_sos poles_sos m = Inr sos \<Longrightarrow>
   map m_b0 sos = map (\<lambda>s. if int s = n - 1 then k else 1) (rev [0..<m])"
proof (induction m arbitrary: sos)
  case 0
  then show ?case by simp
next
  case (Suc m)
  from Suc.prems obtain zs ps b rest where
    b: "zpk2tf \<lparr>zeros = zs, poles = ps, gain = (if int m = n - 1 then k else 1)\<rparr> = Inr b"
    and rest: "emit_sections k n zeros_sos poles_sos m = Inr rest"
    and sos: "sos = b # rest"
    by (auto split: sum.splits)
  have "m_b0 b = (if int m = n - 1 then k else 1)"
    using zpk2tf_b0 [OF b] by simp
  with Suc.IH [OF rest] sos show ?case by simp
qed

lemma zpk2sos_pad_gain: "zpk2sos_pad z = Inr z1 \<Longrightarrow> gain z1 = gain z"
  by (auto simp: zpk2sos_pad_def split: sum.splits if_splits)

lemma zpk2sos_emits:
  assumes "zpk2sos z = Inr sos"
  shows "\<exists>m zeros_sos poles_sos. emit_sections (gain z) (int m) zeros_sos poles_sos m = Inr sos"
proof -
  from assms obtain z1 st where pad: "zpk2sos_pad z = Inr z1"
    and fin: "zpk2sos_finish (gain z1) (int ((length (zeros z1) + 1) div 2)) st = Inr sos"
    by (auto simp: zpk2sos_def Let_def split: sum.splits prod.splits if_splits)
  obtain ps zs poles_sos zeros_sos where st: "st = (ps, zs, poles_sos, zeros_sos)"
    by (cases st) auto
  from fin have "emit_sections (gain z1) (int ((length (zeros z1) + 1) div 2)) zeros_sos poles_sos
      ((length (zeros z1) + 1) div 2) = Inr sos"
    unfolding st by (auto simp: zpk2sos_finish_def split: if_splits)
  then show ?thesis
    using zpk2sos_pad_gain [OF pad] by auto
qed

lemma zpk2sos_two_sections:
  "zpk2sos \<lparr>zeros = [Complex 0 1, Complex 0 (- 1), Complex 0 2, Complex 0 (- 2)],
            poles = [Complex 0 (1 / 2), Complex 0 (- 1 / 2),
                     Complex 0 (1 / 4), Complex 0 (- 1 / 4)],
            gain = 2\<rparr>
   = Inr [new_biquad 2 0 8 0 (1 / 16), new_biquad 1 0 1 0 (1 / 4)]"
  apply (simp add: zpk2sos_def zpk2sos_pad_def pad_loop.simps cplxpair_eval
           unit_circle_closer_def)
  apply (simp add: numeral_2_eq_2 pair_section_def pair_first_zero_def is_real_def
           count_real_def is_real_list_def epsilon_def min_element_def vector_at_def erase_def
           complex_eval)
  apply (simp add: zpk2sos_finish_def numeral_2_eq_2 zpk2tf_def vector_at_def is_real_def
           epsilon_def complex_eval new_biquad_def)
  done

text \<open>
  Claim C1, as amended. Whenever \<open>zpk2sos\<close> returns a cascade, the overall gain is applied
  entirely in the first section of the returned sequence, the section formed last by the
  pairing loop: that section is built with the gain of the input record and every other
  section with gain 1. A section built with gain \<open>k\<close> has \<open>b0 = k\<close>.
\<close>

theorem gain_in_first_section:
  assumes "zpk2sos z = Inr sos" and "sos \<noteq> []"
  shows "m_b0 (hd sos) = gain z \<and> (\<forall>b\<in>set (tl sos). m_b0 b = 1)"
proof -
  from zpk2sos_emits [OF assms(1)] obtain m zeros_sos poles_sos where
    "emit_sections (gain z) (int m) zeros_sos poles_sos m = Inr sos" by blast
  then have eq: "map m_b0 sos = map (\<lambda>s. if int s = int m - 1 then gain z else 1) (rev [0..<m])"
    by (rule emit_sections_b0)
  with assms(2) obtain m0 where m: "m = Suc m0"
    by (cases m) auto
  from assms(2) obtain b rest where sos: "sos = b # rest"
    by (cases sos) auto
  from eq have hd: "m_b0 b = gain z"
    and tl: "map m_b0 rest = map (\<lambda>s. if int s = int m - 1 then gain z else 1) (rev [0..<m0])"
    unfolding sos m by simp_all
  have "map (\<lambda>s. if int s = int m - 1 then gain z else (1::real)) (rev [0..<m0])
        = map (\<lambda>s. 1) (rev [0..<m0])"
    unfolding m by (rule map_cong) auto
  with tl have "map m_b0 rest = map (\<lambda>s. 1) (rev [0..<m0])" by simp
  then have "set (map m_b0 rest) \<subseteq> {1}" by auto
  then have "\<forall>b\<in>set rest. m_b0 b = 1" by auto
  with hd show ?thesis unfolding sos by simp
qed

text \<open>
  The theorem on a record with two conjugate pairs of poles, two of zeros and gain 2: the
  first of the two sections has \<open>b0 = 2\<close>, the second \<open>b0 = 1\<close>.
\<close>

theorem gain_in_first_section_witness:
  "zpk2sos \<lparr>zeros = [Complex 0 1, Complex 0 (- 1), Complex 0 2, Complex 0 (- 2)],
            poles = [Complex 0 (1 / 2), Complex 0 (- 1 / 2),
                     Complex 0 (1 / 4), Complex 0 (- 1 / 4)],
            gain = 2\<rparr>
   = Inr [new_biquad 2 0 8 0 (1 / 16), new_biquad 1 0 1 0 (1 / 4)]
   \<and> m_b0 (new_biquad 2 0 8 0 (1 / 16)) = 2
   \<and> m_b0 (new_biquad 1 0 1 0 (1 / 4)) = 1"
  using gain_in_first_section [OF zpk2sos_two_sections] zpk2sos_two_sections by simp

text \<open>
  Claim C1 as worded puts the gain into the last section of the returned sequence. On the
  same record the last section is built with gain 1, not with the gain 2 of the input.
\<close>

theorem gain_not_in_last_section_counterexample:
  "zpk2sos \<lparr>zeros = [Complex 0 1, Complex 0 (- 1), Complex 0 2, Complex 0 (- 2)],
            poles = [Complex 0 (1 / 2), Complex 0 (- 1 / 2),
                     Complex 0 (1 / 4), Complex 0 (- 1 / 4)],
            gain = 2\<rparr>
   = Inr [new_biquad 2 0 8 0 (1 / 16), new_biquad 1 0 1 0 (1 / 4)]
   \<and> m_b0 (last [new_biquad 2 0 8 0 (1 / 16), new_biquad 1 0 1 0 (1 / 4)]) = 1
   \<and> m_b0 (hd [new_biquad 2 0 8 0 (1 / 16), new_biquad 1 0 1 0 (1 / 4)]) = 2"
  using zpk2sos_two_sections by (simp add: new_biquad_def)

end
